theory Spec2Isabelle
  imports Main
begin

section \<open>The polling primitive of \<open>internal/poll/poll.go\<close>\<close>

text \<open>
  The package has one type, \<open>poller\<close>, one constructor, \<open>New\<close>, and one method, \<open>Poll\<close>.
  \<open>Poll\<close> talks to four things it does not own: the two contexts, the ticker of the
  \<open>time\<close> package, the \<open>check\<close> closure and the global logger. Each is made explicit below.

  Time is the monotonic clock in nanoseconds. Statements take no time; time passes only
  while \<open>Poll\<close> is blocked in the \<open>select\<close> and while \<open>check\<close> runs.
\<close>

type_synonym instant = nat
type_synonym duration = int

subsection \<open>Errors and contexts\<close>

text \<open>
  \<open>ErrAborted\<close> is the package's own error value (line 15). \<open>Canceled\<close> and
  \<open>DeadlineExceeded\<close> are the two errors of package \<open>context\<close>; \<open>Other\<close> is any other
  error value, such as one returned by \<open>check\<close>.
\<close>

datatype error = ErrAborted | Canceled | DeadlineExceeded | Other string

text \<open>
  A \<open>context.Context\<close> as \<open>Poll\<close> sees it: the instant at which it is done (never, for
  \<open>None\<close>) and the error it reports from then on. The interface's contract is that \<open>Err\<close>
  is nil until \<open>Done\<close> is closed and the same non-nil error ever after.
\<close>

record ctxt =
  done_at :: "instant option"
  cause :: error

definition Err :: "ctxt \<Rightarrow> instant \<Rightarrow> error option" where
  "Err c t = (case done_at c of
                None \<Rightarrow> None
              | Some d \<Rightarrow> if d \<le> t then Some (cause c) else None)"

subsection \<open>The poller and its constructor\<close>

record poller =
  rootCtx :: ctxt
  interval :: duration

definition New :: "ctxt \<Rightarrow> duration \<Rightarrow> poller" where
  "New root_ctx iv = \<lparr>rootCtx = root_ctx, interval = iv\<rparr>"

subsection \<open>The environment of one call\<close>

text \<open>
  The \<open>check\<close> closure may keep state of its own, so it is given by what its \<open>i\<close>-th
  invocation does (counting from 0): how long it runs and what it returns.
\<close>

datatype reply = Reply (lasts: nat) (finished: bool) (err: "error option")

type_synonym check_fn = "nat \<Rightarrow> reply"

text \<open>
  \<open>start\<close> is what \<open>time.Now()\<close> returns on line 43. When more than one case of a
  \<open>select\<close> can proceed, Go picks one at random: \<open>picks_root i\<close> says whether the \<open>select\<close>
  that follows \<open>i\<close> invocations of \<open>check\<close> takes the \<open>rootCtx.Done()\<close> case then.
\<close>

record sched =
  start :: instant
  picks_root :: "nat \<Rightarrow> bool"

datatype entry =
    Info_start_polling duration
  | Warn_poll_check_failed error
  | Info_poll_confirmed duration

text \<open>
  The state of a running call. \<open>tick_at\<close> is the ticker: the instant from which a receive
  on \<open>tc.C\<close> succeeds. Every receive in \<open>Poll\<close> is followed at once by \<open>tc.Reset\<close>, after
  which, as package \<open>time\<close> documents, the next tick arrives one new period later, so one
  instant describes the ticker. \<open>calls\<close> lists the invocations of \<open>check\<close> so far, each with
  the instant it started and the instant it returned. \<open>stopped\<close> is set by the deferred
  \<open>tc.Stop()\<close>. \<open>self\<close> is the object the receiver \<open>pl\<close> points to.
\<close>

record state =
  now :: instant
  tick_at :: instant
  calls :: "(instant \<times> instant) list"
  log :: "entry list"
  stopped :: bool
  self :: poller

datatype outcome = Returned duration "error option" | Panicked

definition since :: "sched \<Rightarrow> instant \<Rightarrow> duration" where
  "since w t = int t - int (start w)"

subsection \<open>The select of lines 51 to 56\<close>

datatype woke = RootDone | Tick

text \<open>
  The \<open>select\<close> has two cases, \<open>rootCtx.Done()\<close> and \<open>tc.C\<close>. Entered at \<open>now\<close>, each case can
  proceed from the later of \<open>now\<close> and the instant its channel becomes ready. The case that
  can proceed first is taken; when both can proceed at the same instant the runtime chooses.
\<close>

definition select_wait :: "sched \<Rightarrow> ctxt \<Rightarrow> state \<Rightarrow> woke \<times> instant" where
  "select_wait w root st =
     (let tk = max (now st) (tick_at st) in
      case done_at root of
        None \<Rightarrow> (Tick, tk)
      | Some r \<Rightarrow>
          let tr = max (now st) r in
          if tr < tk then (RootDone, tr)
          else if tk < tr then (Tick, tk)
          else (if picks_root w (length (calls st)) then RootDone else Tick, tk))"

subsection \<open>Poll\<close>

text \<open>The loop condition of line 50.\<close>

definition running :: "ctxt \<Rightarrow> state \<Rightarrow> bool" where
  "running ctx st \<longleftrightarrow> Err (rootCtx (self st)) (now st) = None \<and> Err ctx (now st) = None"

text \<open>
  Lines 51 to 69, one pass through the loop body: it either goes round again (both
  \<open>continue\<close> statements and no other) or leaves \<open>Poll\<close> with a \<open>return\<close> or a panic. The
  deferred \<open>tc.Stop()\<close> runs on each way out. \<open>tc.Reset\<close> panics when its argument is not
  positive, as package \<open>time\<close> documents. The ticker is reset on line 55, before \<open>check\<close> is
  called on line 58.
\<close>

datatype flow = Continue state | Leave outcome state

text \<open>
  Lines 55 and 58 when the interval is positive: the tick is received at \<open>t\<close>, the ticker
  is reset there, and \<open>check\<close> is called there and returns after it has run.
\<close>

definition reset_and_check :: "check_fn \<Rightarrow> state \<Rightarrow> instant \<Rightarrow> state" where
  "reset_and_check check st t =
     st\<lparr>now := t + lasts (check (length (calls st))),
        tick_at := t + nat (interval (self st)),
        calls := calls st @ [(t, t + lasts (check (length (calls st))))]\<rparr>"

definition body :: "sched \<Rightarrow> check_fn \<Rightarrow> state \<Rightarrow> flow" where
  "body w check st =
     (case select_wait w (rootCtx (self st)) st of
        (RootDone, t) \<Rightarrow>
          Leave (Returned (since w t) (Some ErrAborted)) (st\<lparr>now := t, stopped := True\<rparr>)
      | (Tick, t) \<Rightarrow>
          if interval (self st) \<le> 0 then Leave Panicked (st\<lparr>now := t, stopped := True\<rparr>)
          else
            let r = check (length (calls st));
                st1 = reset_and_check check st t
            in (case err r of
                  Some e \<Rightarrow> Continue (st1\<lparr>log := log st1 @ [Warn_poll_check_failed e]\<rparr>)
                | None \<Rightarrow>
                    if \<not> finished r then Continue st1
                    else Leave (Returned (since w (now st1)) None)
                           (st1\<lparr>log := log st1 @ [Info_poll_confirmed (since w (now st1))],
                               stopped := True\<rparr>)))"

text \<open>Lines 72 to 76: the code after the loop.\<close>

definition after_loop :: "sched \<Rightarrow> ctxt \<Rightarrow> state \<Rightarrow> outcome option \<times> state" where
  "after_loop w ctx st =
     (let e = Err ctx (now st);
          e' = (if Err (rootCtx (self st)) (now st) \<noteq> None then Some ErrAborted else e)
      in (Some (Returned (since w (now st)) e'), st\<lparr>stopped := True\<rparr>))"

text \<open>
  The loop of lines 50 to 70. It may run forever, so it takes fuel, one unit for each test
  of the loop condition. The outcome \<open>None\<close> says that the call is still running when the
  fuel is used up; the state is then the one reached so far.
\<close>

fun poll_loop :: "nat \<Rightarrow> sched \<Rightarrow> ctxt \<Rightarrow> check_fn \<Rightarrow> state \<Rightarrow> outcome option \<times> state" where
  "poll_loop 0 w ctx check st = (None, st)"
| "poll_loop (Suc fuel) w ctx check st =
     (if running ctx st then
        (case body w check st of
           Continue st' \<Rightarrow> poll_loop fuel w ctx check st'
         | Leave out st' \<Rightarrow> (Some out, st'))
      else after_loop w ctx st)"

text \<open>
  Lines 43 to 48: the state in which the loop is entered. \<open>time.NewTicker(1)\<close> ticks first
  one nanosecond after it is made.
\<close>

definition enter :: "sched \<Rightarrow> poller \<Rightarrow> state" where
  "enter w pl = \<lparr>now = start w, tick_at = start w + 1, calls = [],
                 log = [Info_start_polling (interval pl)], stopped = False, self = pl\<rparr>"

definition Poll :: "nat \<Rightarrow> sched \<Rightarrow> poller \<Rightarrow> ctxt \<Rightarrow> check_fn \<Rightarrow> outcome option \<times> state" where
  "Poll fuel w pl ctx check = poll_loop fuel w ctx check (enter w pl)"

subsection \<open>Several calls on one poller\<close>

text \<open>
  Calls made one after another through the same pointer: each call works on the object
  that the call before it left behind. The result is that object after the last call and
  the outcomes of the calls in order.
\<close>

fun poll_many :: "nat \<Rightarrow> poller \<Rightarrow> (sched \<times> ctxt \<times> check_fn) list
                   \<Rightarrow> poller \<times> outcome option list" where
  "poll_many fuel pl [] = (pl, [])"
| "poll_many fuel pl ((w, ctx, check) # cs) =
     (case Poll fuel w pl ctx check of
        (out, st') \<Rightarrow>
          (case poll_many fuel (self st') cs of
             (pl', outs) \<Rightarrow> (pl', out # outs)))"

subsection \<open>Reading a finished call\<close>

text \<open>
  The success path, lines 67 to 69, is the only place that logs "poll confirmed", so the
  log tells whether a call left through it.
\<close>

fun is_confirmed :: "entry \<Rightarrow> bool" where
  "is_confirmed (Info_poll_confirmed d) = True"
| "is_confirmed (Info_start_polling d) = False"
| "is_confirmed (Warn_poll_check_failed e) = False"

definition success_path :: "state \<Rightarrow> bool" where
  "success_path st \<longleftrightarrow> list_ex is_confirmed (log st)"

text \<open>
  The errors that the warnings of a log carry, and the errors that the first \<open>n\<close>
  invocations of \<open>check\<close> return, both in order.
\<close>

fun warned :: "entry \<Rightarrow> error option" where
  "warned (Warn_poll_check_failed e) = Some e"
| "warned (Info_start_polling d) = None"
| "warned (Info_poll_confirmed d) = None"

definition warnings :: "entry list \<Rightarrow> error list" where
  "warnings l = List.map_filter warned l"

definition check_errors :: "check_fn \<Rightarrow> nat \<Rightarrow> error list" where
  "check_errors check n = List.map_filter (\<lambda>i. err (check i)) [0..<n]"

text \<open>Whether a context became done strictly before an instant.\<close>

definition done_before :: "ctxt \<Rightarrow> instant \<Rightarrow> bool" where
  "done_before c t = (case done_at c of None \<Rightarrow> False | Some d \<Rightarrow> d < t)"

subsection \<open>The pace of the invocations\<close>



subsection \<open>The end of the wait\<close>

text \<open>
  The end of the wait as the specification words it: the next tick or either context
  becoming done, whichever comes first.
\<close>

definition wait_ends_on_either_signal :: "ctxt \<Rightarrow> ctxt \<Rightarrow> state \<Rightarrow> instant" where
  "wait_ends_on_either_signal root ctx st =
     (let tk = max (now st) (tick_at st);
          tr = (case done_at root of None \<Rightarrow> tk | Some r \<Rightarrow> max (now st) r);
          tc = (case done_at ctx of None \<Rightarrow> tk | Some c \<Rightarrow> max (now st) c)
      in min tk (min tr tc))"

subsection \<open>Inputs for the concrete runs\<close>

text \<open>
  A context that is never done, as \<open>context.Background()\<close>; a context that is done from a
  given instant on; a clock that starts at 0 with a runtime that takes the tick when both
  cases of the \<open>select\<close> can proceed.
\<close>

definition never :: ctxt where
  "never = \<lparr>done_at = None, cause = Canceled\<rparr>"

definition done_from :: "instant \<Rightarrow> error \<Rightarrow> ctxt" where
  "done_from t e = \<lparr>done_at = Some t, cause = e\<rparr>"

definition from_zero :: sched where
  "from_zero = \<lparr>start = 0, picks_root = (\<lambda>i. False)\<rparr>"

section \<open>Facts about one pass and about the loop\<close>

text \<open>What one pass through the loop body does, by the way it ends.\<close>

lemma body_RootDone:
  "select_wait w (rootCtx (self st)) st = (RootDone, t) \<Longrightarrow>
   body w check st = Leave (Returned (since w t) (Some ErrAborted)) (st\<lparr>now := t, stopped := True\<rparr>)"
  by (simp add: body_def)

lemma body_Continue_D:
  assumes "body w check st = Continue s'"
  shows "\<exists>t. select_wait w (rootCtx (self st)) st = (Tick, t) \<and> 0 < interval (self st)
           \<and> \<not> (finished (check (length (calls st))) \<and> err (check (length (calls st))) = None)
           \<and> s' = (reset_and_check check st t)
                    \<lparr>log := log st @ (case err (check (length (calls st))) of
                                        None \<Rightarrow> [] | Some e \<Rightarrow> [Warn_poll_check_failed e])\<rparr>"
proof (cases "select_wait w (rootCtx (self st)) st")
  case (Pair ev t)
  with assms show ?thesis
    by (cases ev)
       (auto simp: body_def Let_def reset_and_check_def split: if_splits option.splits)
qed

lemma body_Leave_D:
  assumes "body w check st = Leave out' s'"
  shows "(\<exists>t. select_wait w (rootCtx (self st)) st = (RootDone, t)
            \<and> out' = Returned (since w t) (Some ErrAborted)
            \<and> s' = st\<lparr>now := t, stopped := True\<rparr>)
       \<or> (\<exists>t. select_wait w (rootCtx (self st)) st = (Tick, t) \<and> interval (self st) \<le> 0
            \<and> out' = Panicked \<and> s' = st\<lparr>now := t, stopped := True\<rparr>)
       \<or> (\<exists>t. select_wait w (rootCtx (self st)) st = (Tick, t) \<and> 0 < interval (self st)
            \<and> finished (check (length (calls st))) \<and> err (check (length (calls st))) = None
            \<and> out' = Returned (since w (t + lasts (check (length (calls st))))) None
            \<and> s' = (reset_and_check check st t)
                     \<lparr>log := log st @ [Info_poll_confirmed
                                         (since w (t + lasts (check (length (calls st)))))],
                      stopped := True\<rparr>)"
proof (cases "select_wait w (rootCtx (self st)) st")
  case (Pair ev t)
  with assms show ?thesis
    by (cases ev)
       (auto simp: body_def Let_def reset_and_check_def split: if_splits option.splits)
qed

text \<open>
  The rule for the loop: a property that holds on entry and is kept by every pass that goes
  round again holds of the state in which the loop is left, whichever way it is left.
\<close>

lemma poll_loop_cases:
  assumes "poll_loop f w ctx check st = (out, st')"
    and "I st"
    and "\<And>s s'. I s \<Longrightarrow> running ctx s \<Longrightarrow> body w check s = Continue s' \<Longrightarrow> I s'"
  shows "(out = None \<and> I st')
       \<or> (\<exists>s. I s \<and> \<not> running ctx s \<and> after_loop w ctx s = (out, st'))
       \<or> (\<exists>s out'. I s \<and> running ctx s \<and> body w check s = Leave out' st' \<and> out = Some out')"
  using assms(1,2)
proof (induction f arbitrary: st)
  case 0
  then show ?case by simp
next
  case (Suc f)
  show ?case
  proof (cases "running ctx st")
    case False
    with Suc.prems show ?thesis by auto
  next
    case True
    show ?thesis
    proof (cases "body w check st")
      case (Continue s')
      with True Suc.prems(1) have "poll_loop f w ctx check s' = (out, st')" by simp
      moreover have "I s'" using assms(3)[OF Suc.prems(2) True Continue] .
      ultimately show ?thesis using Suc.IH by blast
    next
      case (Leave out' s')
      with True Suc.prems show ?thesis by auto
    qed
  qed
qed

lemma reset_and_check_simps [simp]:
  "self (reset_and_check check st t) = self st"
  "log (reset_and_check check st t) = log st"
  "stopped (reset_and_check check st t) = stopped st"
  "now (reset_and_check check st t) = t + lasts (check (length (calls st)))"
  "tick_at (reset_and_check check st t) = t + nat (interval (self st))"
  "calls (reset_and_check check st t) = calls st @ [(t, t + lasts (check (length (calls st))))]"
  by (simp_all add: reset_and_check_def)

lemma poll_loop_self:
  assumes "poll_loop f w ctx check st = (out, st')"
  shows "self st' = self st"
proof -
  from assms
  have "(out = None \<and> self st' = self st)
      \<or> (\<exists>s. self s = self st \<and> \<not> running ctx s \<and> after_loop w ctx s = (out, st'))
      \<or> (\<exists>s out'. self s = self st \<and> running ctx s \<and> body w check s = Leave out' st'
             \<and> out = Some out')"
    by (rule poll_loop_cases[where I = "\<lambda>s. self s = self st"])
       (auto dest!: body_Continue_D)
  then show ?thesis
    by (auto simp: after_loop_def Let_def dest!: body_Leave_D)
qed

text \<open>What the \<open>select\<close> tells about the root context and the tick.\<close>

lemma select_RootDone_fired:
  "select_wait w root st = (RootDone, t) \<Longrightarrow> Err root t \<noteq> None"
  by (cases "done_at root") (auto simp: select_wait_def Let_def Err_def split: if_splits)

lemma select_Tick_unfired:
  "select_wait w root st = (Tick, t) \<Longrightarrow> Err root (now st) = None \<Longrightarrow>
   t = max (now st) (tick_at st) \<and> (\<forall>r. done_at root = Some r \<longrightarrow> t \<le> r)"
  by (cases "done_at root") (auto simp: select_wait_def Let_def Err_def split: if_splits)

text \<open>The four ways in which a call ends.\<close>

lemma poll_ends:
  assumes "Poll f w pl ctx check = (Some out', st')"
  shows "self st' = pl \<and>
    ((\<not> success_path st' \<and> Err (rootCtx pl) (now st') \<noteq> None
        \<and> out' = Returned (since w (now st')) (Some ErrAborted))
   \<or> (\<not> success_path st' \<and> Err (rootCtx pl) (now st') = None \<and> Err ctx (now st') \<noteq> None
        \<and> out' = Returned (since w (now st')) (Err ctx (now st')))
   \<or> (\<not> success_path st' \<and> interval pl \<le> 0 \<and> out' = Panicked)
   \<or> (success_path st' \<and> out' = Returned (since w (now st')) None \<and> calls st' \<noteq> []
        \<and> finished (check (length (calls st') - 1))
        \<and> err (check (length (calls st') - 1)) = None))"
proof -
  let ?I = "\<lambda>s. self s = pl \<and> \<not> success_path s"
  from assms have run: "poll_loop f w ctx check (enter w pl) = (Some out', st')"
    by (simp add: Poll_def)
  have "(Some out' = None \<and> ?I st')
      \<or> (\<exists>s. ?I s \<and> \<not> running ctx s \<and> after_loop w ctx s = (Some out', st'))
      \<or> (\<exists>s out''. ?I s \<and> running ctx s \<and> body w check s = Leave out'' st'
             \<and> Some out' = Some out'')"
    using run
  proof (rule poll_loop_cases[where I = ?I])
    show "?I (enter w pl)" by (simp add: enter_def success_path_def)
  next
    fix s s' assume "?I s" "running ctx s" "body w check s = Continue s'"
    then show "?I s'"
      using body_Continue_D[of w check s s']
      by (cases "err (check (length (calls s)))") (auto simp: success_path_def)
  qed
  then consider
      (exit) s where "?I s" "\<not> running ctx s" "after_loop w ctx s = (Some out', st')"
    | (leave) s where "?I s" "running ctx s" "body w check s = Leave out' st'"
    by auto
  then show ?thesis
  proof cases
    case exit
    from exit(3) have st': "st' = s\<lparr>stopped := True\<rparr>"
      and out': "out' = Returned (since w (now s))
                   (if Err (rootCtx (self s)) (now s) \<noteq> None then Some ErrAborted
                    else Err ctx (now s))"
      by (simp_all add: after_loop_def Let_def)
    from exit(1) st' have a: "self st' = pl" "\<not> success_path st'" "now st' = now s"
      by (simp_all add: success_path_def)
    show ?thesis
    proof (cases "Err (rootCtx pl) (now s)")
      case None
      with exit(1,2) have "Err ctx (now s) \<noteq> None" by (simp add: running_def)
      with None a out' exit(1) show ?thesis by simp
    next
      case (Some e)
      with a out' exit(1) show ?thesis by simp
    qed
  next
    case leave
    from body_Leave_D[OF leave(3)] consider
        (aborted) t where "select_wait w (rootCtx (self s)) s = (RootDone, t)"
          "out' = Returned (since w t) (Some ErrAborted)" "st' = s\<lparr>now := t, stopped := True\<rparr>"
      | (panicked) t where "interval (self s) \<le> 0" "out' = Panicked"
          "st' = s\<lparr>now := t, stopped := True\<rparr>"
      | (confirmed) t where "finished (check (length (calls s)))"
          "err (check (length (calls s))) = None"
          "out' = Returned (since w (t + lasts (check (length (calls s))))) None"
          "st' = (reset_and_check check s t)
                     \<lparr>log := log s @ [Info_poll_confirmed
                                         (since w (t + lasts (check (length (calls s)))))],
                      stopped := True\<rparr>"
      by blast
    then show ?thesis
    proof cases
      case aborted
      from select_RootDone_fired[OF aborted(1)] leave(1) aborted(2,3)
      show ?thesis by (simp add: success_path_def)
    next
      case panicked
      with leave(1) show ?thesis by (simp add: success_path_def)
    next
      case confirmed
      with leave(1) show ?thesis by (simp add: success_path_def)
    qed
  qed
qed

subsection \<open>Fuel\<close>

text \<open>
  An outcome, once reached, stays the same with more fuel. When one of the two contexts
  is done at some instant \<open>T\<close>, the call ends, and \<open>T + 2\<close> units of fuel show it: every
  pass moves the later of \<open>now\<close> and \<open>tick_at\<close> forward by at least a nanosecond.
\<close>

lemma poll_loop_more_fuel:
  "poll_loop f w ctx check st = (Some out', st') \<Longrightarrow>
   poll_loop (f + k) w ctx check st = (Some out', st')"
proof (induction f arbitrary: st)
  case 0
  then show ?case by simp
next
  case (Suc f)
  show ?case
  proof (cases "running ctx st")
    case False
    with Suc.prems show ?thesis by simp
  next
    case True
    show ?thesis
    proof (cases "body w check st")
      case (Continue s1)
      with True Suc.prems have "poll_loop f w ctx check s1 = (Some out', st')" by simp
      from Suc.IH[OF this] True Continue show ?thesis by simp
    next
      case (Leave out'' s1)
      with True Suc.prems show ?thesis by simp
    qed
  qed
qed

lemma poll_loop_returns:
  assumes "done_at ctx = Some T \<or> done_at (rootCtx (self st)) = Some T"
    and "2 \<le> f" and "T + 3 \<le> f + max (now st) (tick_at st)"
  shows "fst (poll_loop f w ctx check st) \<noteq> None"
  using assms
proof (induction f arbitrary: st)
  case 0
  then show ?case by simp
next
  case (Suc f)
  show ?case
  proof (cases "running ctx st")
    case False
    then show ?thesis by (simp add: after_loop_def Let_def)
  next
    case True
    show ?thesis
    proof (cases "body w check st")
      case (Leave out' s1)
      with True show ?thesis by simp
    next
      case (Continue s1)
      from body_Continue_D[OF this] obtain t where
        sel: "select_wait w (rootCtx (self st)) st = (Tick, t)"
        and iv: "0 < interval (self st)"
        and s1: "self s1 = self st" "now s1 = t + lasts (check (length (calls st)))"
          "tick_at s1 = t + nat (interval (self st))"
        by auto
      from select_Tick_unfired[OF sel] True
      have t: "t = max (now st) (tick_at st)" by (simp add: running_def)
      from True Continue
      have step: "poll_loop (Suc f) w ctx check st = poll_loop f w ctx check s1" by simp
      show ?thesis
      proof (cases "T \<le> now s1")
        case True
        with Suc.prems(1) s1(1) have "\<not> running ctx s1"
          by (auto simp: running_def Err_def)
        moreover from Suc.prems(2) obtain f' where "f = Suc f'" by (cases f) auto
        ultimately show ?thesis using step by (simp add: after_loop_def Let_def)
      next
        case False
        with s1 t Suc.prems(3) iv have "2 \<le> f" and "T + 3 \<le> f + max (now s1) (tick_at s1)"
          by (auto simp: max_def split: if_splits)
        with Suc.IH[of s1] Suc.prems(1) s1(1) step show ?thesis by simp
      qed
    qed
  qed
qed

lemma Poll_returns_once_a_context_is_done:
  assumes "done_at ctx = Some T \<or> done_at (rootCtx pl) = Some T"
  shows "fst (Poll (T + 2) w pl ctx check) \<noteq> None"
proof -
  from assms have "done_at ctx = Some T \<or> done_at (rootCtx (self (enter w pl))) = Some T"
    by (simp add: enter_def)
  moreover have "2 \<le> T + 2"
    and "T + 3 \<le> T + 2 + max (now (enter w pl)) (tick_at (enter w pl))"
    by (simp_all add: enter_def)
  ultimately show ?thesis
    unfolding Poll_def by (rule poll_loop_returns)
qed

section \<open>The claims\<close>

subsection \<open>C1: the root context takes precedence\<close>

text \<open>
  C1. Whenever \<open>Poll\<close> returns other than through the success path and the root context is
  done at that instant, the error returned is \<open>ErrAborted\<close>. Nothing is assumed about the
  operation context: it may be done as well, and may have been done earlier or later than
  the root context. This covers both the \<open>return\<close> inside the \<open>select\<close> (line 53) and the
  code after the loop (lines 72 to 76).
\<close>

theorem root_done_returns_ErrAborted:
  assumes "Poll f w pl ctx check = (Some (Returned took e), st')"
    and "\<not> success_path st'"
    and "Err (rootCtx pl) (now st') \<noteq> None"
  shows "e = Some ErrAborted"
  using poll_ends[OF assms(1)] assms(2,3) by auto

text \<open>
  A run for C1: the operation context is done at 3 and the root context at 6, both while
  the first \<open>check\<close> runs from 1 to 10; the loop condition then fails and the code after
  the loop returns \<open>ErrAborted\<close>.
\<close>

theorem root_done_returns_ErrAborted_witness:
  "case Poll 5 from_zero (New (done_from 6 Canceled) 10) (done_from 3 DeadlineExceeded)
          (\<lambda>i. Reply 9 False None) of
     (out, st') \<Rightarrow>
       out = Some (Returned 10 (Some ErrAborted)) \<and> \<not> success_path st'
       \<and> Err (done_from 6 Canceled) (now st') \<noteq> None
       \<and> Err (done_from 3 DeadlineExceeded) (now st') \<noteq> None"
proof -
  let ?pl = "New (done_from 6 Canceled) 10"
  let ?st = "\<lparr>now = 10, tick_at = 11, calls = [(1, 10)], log = [Info_start_polling 10],
              stopped = True, self = ?pl\<rparr>"
  have run: "Poll 5 from_zero ?pl (done_from 3 DeadlineExceeded) (\<lambda>i. Reply 9 False None)
               = (Some (Returned 10 (Some ErrAborted)), ?st)"
    by code_simp
  have path: "\<not> success_path ?st" by code_simp
  have root: "Err (rootCtx ?pl) (now ?st) \<noteq> None" by code_simp
  have op: "Err (done_from 3 DeadlineExceeded) (now ?st) \<noteq> None" by code_simp
  from root_done_returns_ErrAborted[OF run path root] run path root op
  show ?thesis by (simp add: New_def)
qed

subsection \<open>C2: the pace of the invocations\<close>






subsection \<open>C3: errors of check\<close>

lemma warnings_append: "warnings (l @ l') = warnings l @ warnings l'"
  by (simp add: warnings_def List.map_filter_def)

lemma check_errors_Suc:
  "check_errors check (Suc n)
     = check_errors check n @ (case err (check n) of None \<Rightarrow> [] | Some e \<Rightarrow> [e])"
  by (simp add: check_errors_def List.map_filter_def split: option.splits)

lemma poll_loop_warnings:
  assumes "poll_loop f w ctx check st = (out, st')"
    and "warnings (log st) = check_errors check (length (calls st))"
  shows "warnings (log st') = check_errors check (length (calls st'))"
proof -
  let ?I = "\<lambda>s. warnings (log s) = check_errors check (length (calls s))"
  have "(out = None \<and> ?I st')
      \<or> (\<exists>s. ?I s \<and> \<not> running ctx s \<and> after_loop w ctx s = (out, st'))
      \<or> (\<exists>s out'. ?I s \<and> running ctx s \<and> body w check s = Leave out' st' \<and> out = Some out')"
    using assms(1)
  proof (rule poll_loop_cases[where I = ?I])
    show "?I st" by (rule assms(2))
  next
    fix s s' assume I: "?I s" and "running ctx s" and "body w check s = Continue s'"
    from body_Continue_D[OF this(3)] obtain t where
      "s' = (reset_and_check check s t)
              \<lparr>log := log s @ (case err (check (length (calls s))) of
                                 None \<Rightarrow> [] | Some e \<Rightarrow> [Warn_poll_check_failed e])\<rparr>"
      by blast
    with I show "?I s'"
      by (simp add: warnings_append check_errors_Suc warnings_def List.map_filter_def
               split: option.splits)
  qed
  then consider
      (fuel) "?I st'"
    | (exit) s where "?I s" "after_loop w ctx s = (out, st')"
    | (leave) s out' where "?I s" "body w check s = Leave out' st'"
    by blast
  then show ?thesis
  proof cases
    case fuel
    then show ?thesis .
  next
    case exit
    then show ?thesis by (auto simp: after_loop_def Let_def)
  next
    case leave
    from body_Leave_D[OF leave(2)] consider
        (same) t where "st' = s\<lparr>now := t, stopped := True\<rparr>"
      | (confirmed) t where "err (check (length (calls s))) = None"
          "st' = (reset_and_check check s t)
                     \<lparr>log := log s @ [Info_poll_confirmed
                                         (since w (t + lasts (check (length (calls s)))))],
                      stopped := True\<rparr>"
      by blast
    then show ?thesis
    proof cases
      case same
      with leave(1) show ?thesis by simp
    next
      case confirmed
      with leave(1) show ?thesis
        by (simp add: warnings_append check_errors_Suc warnings_def List.map_filter_def)
    qed
  qed
qed

lemma poll_continues:
  assumes "Poll f w pl ctx check = (Some out', st')"
    and "i < length (calls st')" and "err (check i) \<noteq> None"
  shows "Suc i < length (calls st') \<or> Err (rootCtx pl) (now st') \<noteq> None
         \<or> Err ctx (now st') \<noteq> None"
proof -
  let ?I = "\<lambda>s. self s = pl \<and> (calls s \<noteq> [] \<longrightarrow> 0 < interval pl)"
  from assms(1) have run: "poll_loop f w ctx check (enter w pl) = (Some out', st')"
    by (simp add: Poll_def)
  have "(Some out' = None \<and> ?I st')
      \<or> (\<exists>s. ?I s \<and> \<not> running ctx s \<and> after_loop w ctx s = (Some out', st'))
      \<or> (\<exists>s out''. ?I s \<and> running ctx s \<and> body w check s = Leave out'' st'
             \<and> Some out' = Some out'')"
    using run
  proof (rule poll_loop_cases[where I = ?I])
    show "?I (enter w pl)" by (simp add: enter_def)
  next
    fix s s' assume "?I s" "running ctx s" "body w check s = Continue s'"
    then show "?I s'"
      using body_Continue_D[of w check s s'] by auto
  qed
  then consider
      (exit) s where "?I s" "\<not> running ctx s" "after_loop w ctx s = (Some out', st')"
    | (leave) s where "?I s" "body w check s = Leave out' st'"
    by auto
  then show ?thesis
  proof cases
    case exit
    from exit(3) have "st' = s\<lparr>stopped := True\<rparr>" by (simp add: after_loop_def Let_def)
    with exit(1,2) show ?thesis by (auto simp: running_def)
  next
    case leave
    from body_Leave_D[OF leave(2)] consider
        (aborted) t where "select_wait w (rootCtx (self s)) s = (RootDone, t)"
          "st' = s\<lparr>now := t, stopped := True\<rparr>"
      | (panicked) t where "interval (self s) \<le> 0" "st' = s\<lparr>now := t, stopped := True\<rparr>"
      | (confirmed) t where "err (check (length (calls s))) = None"
          "st' = (reset_and_check check s t)
                     \<lparr>log := log s @ [Info_poll_confirmed
                                         (since w (t + lasts (check (length (calls s)))))],
                      stopped := True\<rparr>"
      by blast
    then show ?thesis
    proof cases
      case aborted
      from select_RootDone_fired[OF aborted(1)] aborted(2) leave(1) show ?thesis by simp
    next
      case panicked
      with leave(1) assms(2) show ?thesis by auto
    next
      case confirmed
      with assms(2,3) have "i \<noteq> length (calls s)" and "i < Suc (length (calls s))"
        by auto
      with confirmed(2) show ?thesis by simp
    qed
  qed
qed

text \<open>
  C3. The warnings in the log are the errors that the invocations of \<open>check\<close> returned,
  one warning for each, in order. The error that \<open>Poll\<close> returns is nil, \<open>ErrAborted\<close> or the
  operation context's own, so never one that came from \<open>check\<close>. A failed \<open>check\<close> does not
  end the call: when the call has ended, either \<open>check\<close> was invoked again after the failed
  one, or one of the two contexts is done.
\<close>

theorem check_error_is_logged_not_returned:
  assumes "Poll f w pl ctx check = (out, st')"
  shows "warnings (log st') = check_errors check (length (calls st'))
       \<and> (\<forall>took e. out = Some (Returned took e)
             \<longrightarrow> e = None \<or> e = Some ErrAborted \<or> e = Some (cause ctx))
       \<and> (\<forall>i. i < length (calls st') \<and> err (check i) \<noteq> None \<and> out \<noteq> None
             \<longrightarrow> Suc i < length (calls st') \<or> Err (rootCtx pl) (now st') \<noteq> None
                  \<or> Err ctx (now st') \<noteq> None)"
proof (intro conjI allI impI)
  from assms have "poll_loop f w ctx check (enter w pl) = (out, st')"
    by (simp add: Poll_def)
  moreover have "warnings (log (enter w pl)) = check_errors check (length (calls (enter w pl)))"
    by (simp add: enter_def warnings_def check_errors_def List.map_filter_def)
  ultimately show "warnings (log st') = check_errors check (length (calls st'))"
    by (rule poll_loop_warnings)
next
  fix took e assume "out = Some (Returned took e)"
  with assms have "Poll f w pl ctx check = (Some (Returned took e), st')" by simp
  from poll_ends[OF this]
  have "e = Some ErrAborted \<or> e = Err ctx (now st') \<or> e = None" by auto
  then show "e = None \<or> e = Some ErrAborted \<or> e = Some (cause ctx)"
    by (auto simp: Err_def split: option.splits if_splits)
next
  fix i assume a: "i < length (calls st') \<and> err (check i) \<noteq> None \<and> out \<noteq> None"
  then obtain out' where "out = Some out'" by auto
  with assms a show "Suc i < length (calls st') \<or> Err (rootCtx pl) (now st') \<noteq> None
                     \<or> Err ctx (now st') \<noteq> None"
    using poll_continues[of f w pl ctx check out' st' i] by simp
qed

text \<open>
  A run for C3: the first two invocations of \<open>check\<close> fail (the first even says
  \<open>done = true\<close>), the third returns \<open>(true, nil)\<close>. Two warnings are logged, the call goes
  on after each failure, and it returns nil; neither context is ever done.
\<close>

theorem check_error_is_logged_not_returned_witness:
  "case Poll 5 from_zero (New never 4) never
          (\<lambda>i. if i < 2 then Reply 1 (i = 0) (Some (Other ''rpc'')) else Reply 1 True None) of
     (out, st') \<Rightarrow>
       out = Some (Returned 10 None)
       \<and> warnings (log st') = [Other ''rpc'', Other ''rpc'']
       \<and> calls st' = [(1, 2), (5, 6), (9, 10)]
       \<and> Suc 0 < length (calls st')"
proof -
  let ?pl = "New never 4"
  let ?check = "\<lambda>i::nat. if i < 2 then Reply 1 (i = 0) (Some (Other ''rpc''))
                          else Reply 1 True None"
  let ?st = "\<lparr>now = 10, tick_at = 13, calls = [(1, 2), (5, 6), (9, 10)],
              log = [Info_start_polling 4, Warn_poll_check_failed (Other ''rpc''),
                     Warn_poll_check_failed (Other ''rpc''), Info_poll_confirmed 10],
              stopped = True, self = ?pl\<rparr>"
  have run: "Poll 5 from_zero ?pl never ?check = (Some (Returned 10 None), ?st)"
    by code_simp
  have errs: "check_errors ?check (length (calls ?st)) = [Other ''rpc'', Other ''rpc'']"
    by code_simp
  have failed: "0 < length (calls ?st) \<and> err (?check 0) \<noteq> None
                \<and> Some (Returned 10 None) \<noteq> None"
    by simp
  have quiet: "Err (rootCtx ?pl) (now ?st) = None" "Err never (now ?st) = None"
    by code_simp+
  note facts = check_error_is_logged_not_returned[OF run]
  from facts have "warnings (log ?st) = check_errors ?check (length (calls ?st))" by blast
  moreover from facts failed quiet have "Suc 0 < length (calls ?st)" by blast
  ultimately show ?thesis using run errs by simp
qed

subsection \<open>C4: the operation context's error\<close>

text \<open>
  C4. Whenever \<open>Poll\<close> returns other than through the success path and the root context
  is not done at that instant, the loop was left because the operation context is done, and
  the error returned is the one that \<open>ctx.Err()\<close> reports, the context's own error,
  unchanged.
\<close>

theorem operation_done_returns_its_error:
  assumes "Poll f w pl ctx check = (Some (Returned took e), st')"
    and "\<not> success_path st'"
    and "Err (rootCtx pl) (now st') = None"
  shows "Err ctx (now st') \<noteq> None \<and> e = Err ctx (now st') \<and> e = Some (cause ctx)"
proof -
  from poll_ends[OF assms(1)] assms(2,3)
  have "Err ctx (now st') \<noteq> None" and "e = Err ctx (now st')"
    by auto
  moreover from this have "e = Some (cause ctx)"
    by (auto simp: Err_def split: option.splits if_splits)
  ultimately show ?thesis by simp
qed

text \<open>
  A run for C4: the root context is never done, the operation context reaches its deadline
  at 3 while the first \<open>check\<close> runs from 1 to 10.
\<close>

theorem operation_done_returns_its_error_witness:
  "case Poll 5 from_zero (New never 10) (done_from 3 DeadlineExceeded)
          (\<lambda>i. Reply 9 False None) of
     (out, st') \<Rightarrow>
       out = Some (Returned 10 (Some DeadlineExceeded)) \<and> \<not> success_path st'
       \<and> Err never (now st') = None
       \<and> Err (done_from 3 DeadlineExceeded) (now st') = Some DeadlineExceeded"
proof -
  let ?pl = "New never 10"
  let ?ctx = "done_from 3 DeadlineExceeded"
  let ?st = "\<lparr>now = 10, tick_at = 11, calls = [(1, 10)], log = [Info_start_polling 10],
              stopped = True, self = ?pl\<rparr>"
  have run: "Poll 5 from_zero ?pl ?ctx (\<lambda>i. Reply 9 False None)
               = (Some (Returned 10 (Some DeadlineExceeded)), ?st)"
    by code_simp
  have path: "\<not> success_path ?st" by code_simp
  have root: "Err (rootCtx ?pl) (now ?st) = None" by code_simp
  from operation_done_returns_its_error[OF run path root] run path root
  show ?thesis by (simp add: New_def)
qed

subsection \<open>C5: what ends the wait\<close>

lemma select_wait_instant:
  "snd (select_wait w root st) =
     (case done_at root of
        None \<Rightarrow> max (now st) (tick_at st)
      | Some r \<Rightarrow> min (max (now st) r) (max (now st) (tick_at st)))"
  by (cases "done_at root") (auto simp: select_wait_def Let_def)

lemma select_wait_Tick_due:
  assumes "now st \<le> tick_at st" and "Err root (tick_at st) = None"
  shows "select_wait w root st = (Tick, tick_at st)"
  using assms
  by (cases "done_at root") (auto simp: select_wait_def Let_def Err_def max_def split: if_splits)

lemma poll_loop_operation_done_in_wait:
  assumes run: "running ctx st"
    and op: "done_at ctx = Some c" "c \<le> tick_at st"
    and root: "Err (rootCtx (self st)) (tick_at st) = None"
    and iv: "0 < interval (self st)"
    and res: "poll_loop (Suc (Suc f)) w ctx check st = (out, st')"
  shows "out \<noteq> None
       \<and> calls st' = calls st @ [(tick_at st, tick_at st + lasts (check (length (calls st))))]
       \<and> now st' = tick_at st + lasts (check (length (calls st)))"
proof -
  from run op have "now st < c" by (simp add: running_def Err_def split: if_splits)
  with op(2) have "now st \<le> tick_at st" by simp
  from select_wait_Tick_due[OF this root]
  have sel: "select_wait w (rootCtx (self st)) st = (Tick, tick_at st)" .
  let ?s1 = "reset_and_check check st (tick_at st)"
  show ?thesis
  proof (cases "body w check st")
    case (Continue s1)
    from body_Continue_D[OF this] sel
    have s1: "calls s1 = calls ?s1" "now s1 = now ?s1" by auto
    then have "\<not> running ctx s1" using op by (simp add: running_def Err_def)
    with run Continue res have "after_loop w ctx s1 = (out, st')" by simp
    with s1 show ?thesis by (auto simp: after_loop_def Let_def)
  next
    case (Leave out' s1)
    with run res have r: "out = Some out'" "st' = s1" by simp_all
    from body_Leave_D[OF Leave] sel iv r show ?thesis by auto
  qed
qed

text \<open>
  C5, as the specification states it, fails. With an interval of 1000 the first \<open>check\<close>
  runs at 1 and the loop then waits for the tick due at 1001. The operation context reaches
  its deadline at 5, during the wait. By the specification's words the wait would end at 5;
  the \<open>select\<close> goes on waiting and takes the tick at 1001, \<open>check\<close> is invoked once
  more there, and only then does the call return the deadline error.
\<close>

theorem operation_done_ends_wait_counterexample:
  "running (done_from 5 DeadlineExceeded)
     \<lparr>now = 1, tick_at = 1001, calls = [(1, 1)], log = [Info_start_polling 1000],
      stopped = False, self = New never 1000\<rparr>
   \<and> wait_ends_on_either_signal never (done_from 5 DeadlineExceeded)
       \<lparr>now = 1, tick_at = 1001, calls = [(1, 1)], log = [Info_start_polling 1000],
        stopped = False, self = New never 1000\<rparr> = 5
   \<and> select_wait from_zero never
       \<lparr>now = 1, tick_at = 1001, calls = [(1, 1)], log = [Info_start_polling 1000],
        stopped = False, self = New never 1000\<rparr> = (Tick, 1001)
   \<and> (case Poll 5 from_zero (New never 1000) (done_from 5 DeadlineExceeded)
              (\<lambda>i. Reply 0 False None) of
        (out, st') \<Rightarrow>
          out = Some (Returned 1001 (Some DeadlineExceeded))
          \<and> calls st' = [(1, 1), (1001, 1001)])"
proof -
  let ?st = "\<lparr>now = 1, tick_at = 1001, calls = [(1, 1)], log = [Info_start_polling 1000],
              stopped = False, self = New never 1000\<rparr>"
  have "running (done_from 5 DeadlineExceeded) ?st"
    by (simp add: running_def Err_def done_from_def New_def never_def)
  moreover have "wait_ends_on_either_signal never (done_from 5 DeadlineExceeded) ?st = 5"
    by (simp add: wait_ends_on_either_signal_def done_from_def never_def)
  moreover have "select_wait from_zero never ?st = (Tick, 1001)"
    by (simp add: select_wait_def never_def)
  moreover
  have "Poll 5 from_zero (New never 1000) (done_from 5 DeadlineExceeded)
          (\<lambda>i. Reply 0 False None)
        = (Some (Returned 1001 (Some DeadlineExceeded)),
           \<lparr>now = 1001, tick_at = 2001, calls = [(1, 1), (1001, 1001)],
            log = [Info_start_polling 1000], stopped = True, self = New never 1000\<rparr>)"
    by code_simp
  ultimately show ?thesis by simp
qed

text \<open>
  C5, amended. The wait ends at the next tick or at the instant the root context becomes
  done, whichever comes first, and at nothing else. The operation context becoming done
  during the wait does not end it: when the root context is not done by the time the tick is
  due, the tick is awaited, \<open>check\<close> is invoked once more at the tick, and the call ends
  only when that invocation has returned.
\<close>

theorem wait_ends_at_tick_or_root_done:
  "snd (select_wait w (rootCtx (self st)) st)
     = (case done_at (rootCtx (self st)) of
          None \<Rightarrow> max (now st) (tick_at st)
        | Some r \<Rightarrow> min (max (now st) r) (max (now st) (tick_at st)))
   \<and> (running ctx st \<and> done_at ctx = Some c \<and> c \<le> tick_at st
        \<and> Err (rootCtx (self st)) (tick_at st) = None \<and> 0 < interval (self st)
        \<and> poll_loop (Suc (Suc f)) w ctx check st = (out, st')
      \<longrightarrow> out \<noteq> None
          \<and> calls st' = calls st @ [(tick_at st, tick_at st + lasts (check (length (calls st))))]
          \<and> now st' = tick_at st + lasts (check (length (calls st))))"
  using select_wait_instant[of w "rootCtx (self st)" st]
    poll_loop_operation_done_in_wait[of ctx st c f w check out st']
  by blast

text \<open>
  A run for the amended C5, from the state of the run above in which the wait begins.
\<close>

theorem wait_ends_at_tick_or_root_done_witness:
  "running (done_from 5 DeadlineExceeded)
     \<lparr>now = 1, tick_at = 1001, calls = [(1, 1)], log = [Info_start_polling 1000],
      stopped = False, self = New never 1000\<rparr>
   \<and> poll_loop (Suc (Suc 0)) from_zero (done_from 5 DeadlineExceeded) (\<lambda>i. Reply 0 False None)
       \<lparr>now = 1, tick_at = 1001, calls = [(1, 1)], log = [Info_start_polling 1000],
        stopped = False, self = New never 1000\<rparr>
     = (Some (Returned 1001 (Some DeadlineExceeded)),
        \<lparr>now = 1001, tick_at = 2001, calls = [(1, 1), (1001, 1001)],
         log = [Info_start_polling 1000], stopped = True, self = New never 1000\<rparr>)
   \<and> snd (select_wait from_zero never
       \<lparr>now = 1, tick_at = 1001, calls = [(1, 1)], log = [Info_start_polling 1000],
        stopped = False, self = New never 1000\<rparr>) = 1001"
proof -
  let ?ctx = "done_from 5 DeadlineExceeded"
  let ?check = "\<lambda>i::nat. Reply 0 False None"
  let ?st = "\<lparr>now = 1, tick_at = 1001, calls = [(1, 1)], log = [Info_start_polling 1000],
              stopped = False, self = New never 1000\<rparr>"
  let ?st' = "\<lparr>now = 1001, tick_at = 2001, calls = [(1, 1), (1001, 1001)],
               log = [Info_start_polling 1000], stopped = True, self = New never 1000\<rparr>"
  have hyps: "running ?ctx ?st \<and> done_at ?ctx = Some 5 \<and> 5 \<le> tick_at ?st
        \<and> Err (rootCtx (self ?st)) (tick_at ?st) = None \<and> 0 < interval (self ?st)"
    by (simp add: running_def Err_def done_from_def New_def never_def)
  have run: "poll_loop (Suc (Suc 0)) from_zero ?ctx ?check ?st
               = (Some (Returned 1001 (Some DeadlineExceeded)), ?st')"
    by code_simp
  note facts = wait_ends_at_tick_or_root_done
      [of from_zero ?st ?ctx 5 0 ?check "Some (Returned 1001 (Some DeadlineExceeded))" ?st']
  from facts have "snd (select_wait from_zero (rootCtx (self ?st)) ?st) = 1001"
    by (simp add: New_def never_def)
  moreover from facts hyps run
  have "calls ?st' = calls ?st @ [(tick_at ?st, tick_at ?st + lasts (?check (length (calls ?st))))]"
    by blast
  ultimately show ?thesis using hyps run by (simp add: New_def)
qed

subsection \<open>C6: the root context during the wait\<close>

lemma poll_loop_root_wakes:
  assumes "running ctx st" and "done_at (rootCtx (self st)) = Some r" and "r < tick_at st"
  shows "poll_loop (Suc f) w ctx check st
           = (Some (Returned (since w r) (Some ErrAborted)), st\<lparr>now := r, stopped := True\<rparr>)"
proof -
  from assms(1,2) have "now st < r"
    by (simp add: running_def Err_def split: if_splits)
  with assms(2,3) have "select_wait w (rootCtx (self st)) st = (RootDone, r)"
    by (simp add: select_wait_def Let_def max_def)
  from body_RootDone[OF this] assms(1) show ?thesis by simp
qed

lemma poll_loop_calls_not_after_root:
  assumes "poll_loop f w ctx check st = (out, st')"
    and "\<forall>c\<in>set (calls st). \<not> done_before (rootCtx (self st)) (fst c)"
  shows "\<forall>c\<in>set (calls st'). \<not> done_before (rootCtx (self st)) (fst c)"
proof -
  let ?root = "rootCtx (self st)"
  let ?I = "\<lambda>s. self s = self st \<and> (\<forall>c\<in>set (calls s). \<not> done_before ?root (fst c))"
  have tick: "\<not> done_before ?root t"
    if "self s = self st" "running ctx s" "select_wait w (rootCtx (self s)) s = (Tick, t)"
    for s t
    using select_Tick_unfired[OF that(3)] that(1,2)
    by (auto simp: running_def done_before_def split: option.splits)
  have "(out = None \<and> ?I st')
      \<or> (\<exists>s. ?I s \<and> \<not> running ctx s \<and> after_loop w ctx s = (out, st'))
      \<or> (\<exists>s out'. ?I s \<and> running ctx s \<and> body w check s = Leave out' st' \<and> out = Some out')"
    using assms(1)
  proof (rule poll_loop_cases[where I = ?I])
    show "?I st" using assms(2) by simp
  next
    fix s s' assume I: "?I s" and r: "running ctx s" and b: "body w check s = Continue s'"
    from body_Continue_D[OF b] obtain t where
      t: "select_wait w (rootCtx (self s)) s = (Tick, t)"
      and "self s' = self s" "calls s' = calls s @ [(t, t + lasts (check (length (calls s))))]"
      by auto
    with I tick[OF _ r t] show "?I s'" by simp
  qed
  then consider
      (fuel) "?I st'"
    | (exit) s where "?I s" "after_loop w ctx s = (out, st')"
    | (leave) s out' where "?I s" "running ctx s" "body w check s = Leave out' st'"
    by blast
  then show ?thesis
  proof cases
    case fuel
    then show ?thesis by simp
  next
    case exit
    then show ?thesis by (auto simp: after_loop_def Let_def)
  next
    case leave
    from body_Leave_D[OF leave(3)] consider
        (same) t where "st' = s\<lparr>now := t, stopped := True\<rparr>"
      | (confirmed) t where "select_wait w (rootCtx (self s)) s = (Tick, t)"
          "calls st' = calls s @ [(t, t + lasts (check (length (calls s))))]"
      by auto
    then show ?thesis
    proof cases
      case same
      with leave(1) show ?thesis by simp
    next
      case confirmed
      with leave(1) tick[OF _ leave(2) confirmed(1)] show ?thesis by simp
    qed
  qed
qed

text \<open>
  C6. First: when the loop is entered with neither context done and the root context
  becomes done before the next tick is due, the call returns \<open>ErrAborted\<close> at the very
  instant the root context becomes done, and \<open>check\<close> has not been invoked again: the list
  of invocations is the one the wait began with. Second, for a whole call: no invocation of
  \<open>check\<close> starts after the instant at which the root context became done.
\<close>

theorem root_done_ends_wait_without_check:
  "(running ctx st \<and> done_at (rootCtx (self st)) = Some r \<and> r < tick_at st
      \<longrightarrow> poll_loop (Suc f) w ctx check st
            = (Some (Returned (since w r) (Some ErrAborted)), st\<lparr>now := r, stopped := True\<rparr>))
   \<and> (Poll f' w pl ctx check = (out, st')
      \<longrightarrow> (\<forall>c\<in>set (calls st'). \<not> done_before (rootCtx pl) (fst c)))"
proof (intro conjI impI)
  assume "running ctx st \<and> done_at (rootCtx (self st)) = Some r \<and> r < tick_at st"
  then show "poll_loop (Suc f) w ctx check st
            = (Some (Returned (since w r) (Some ErrAborted)), st\<lparr>now := r, stopped := True\<rparr>)"
    by (intro poll_loop_root_wakes) simp_all
next
  assume "Poll f' w pl ctx check = (out, st')"
  then have "poll_loop f' w ctx check (enter w pl) = (out, st')" by (simp add: Poll_def)
  from poll_loop_calls_not_after_root[OF this]
  show "\<forall>c\<in>set (calls st'). \<not> done_before (rootCtx pl) (fst c)"
    by (simp add: enter_def)
qed

text \<open>
  A run for C6: the interval is 10, the first \<open>check\<close> runs from 1 to 2 and the next tick
  is due at 11; the root context is done at 5. The call returns \<open>ErrAborted\<close> at 5 and
  \<open>check\<close> has been invoked once only.
\<close>

theorem root_done_ends_wait_without_check_witness:
  "running never
     \<lparr>now = 2, tick_at = 11, calls = [(1, 2)], log = [Info_start_polling 10],
      stopped = False, self = New (done_from 5 Canceled) 10\<rparr>
   \<and> Poll 5 from_zero (New (done_from 5 Canceled) 10) never (\<lambda>i. Reply 1 False None)
       = (Some (Returned 5 (Some ErrAborted)),
          \<lparr>now = 5, tick_at = 11, calls = [(1, 2)], log = [Info_start_polling 10],
           stopped = True, self = New (done_from 5 Canceled) 10\<rparr>)
   \<and> poll_loop (Suc 0) from_zero never (\<lambda>i. Reply 1 False None)
        \<lparr>now = 2, tick_at = 11, calls = [(1, 2)], log = [Info_start_polling 10],
         stopped = False, self = New (done_from 5 Canceled) 10\<rparr>
       = (Some (Returned 5 (Some ErrAborted)),
          \<lparr>now = 5, tick_at = 11, calls = [(1, 2)], log = [Info_start_polling 10],
           stopped = True, self = New (done_from 5 Canceled) 10\<rparr>)
   \<and> \<not> done_before (done_from 5 Canceled) 1"
proof -
  let ?pl = "New (done_from 5 Canceled) 10"
  let ?check = "\<lambda>i::nat. Reply 1 False None"
  let ?st = "\<lparr>now = 2, tick_at = 11, calls = [(1, 2)], log = [Info_start_polling 10],
              stopped = False, self = ?pl\<rparr>"
  let ?st' = "\<lparr>now = 5, tick_at = 11, calls = [(1, 2)], log = [Info_start_polling 10],
               stopped = True, self = ?pl\<rparr>"
  have waiting: "running never ?st \<and> done_at (rootCtx (self ?st)) = Some 5 \<and> 5 < tick_at ?st"
    by (simp add: running_def Err_def never_def New_def done_from_def)
  have run: "Poll 5 from_zero ?pl never ?check = (Some (Returned 5 (Some ErrAborted)), ?st')"
    by code_simp
  have since: "since from_zero 5 = 5" by (simp add: since_def from_zero_def)
  note facts = root_done_ends_wait_without_check
      [of never ?st 5 0 from_zero ?check 5 ?pl "Some (Returned 5 (Some ErrAborted))" ?st']
  from facts waiting since
  have "poll_loop (Suc 0) from_zero never ?check ?st
          = (Some (Returned 5 (Some ErrAborted)), ?st')"
    by simp
  moreover from facts run have "\<not> done_before (rootCtx ?pl) (fst (1, 2))"
    by simp
  ultimately show ?thesis using waiting run by (simp add: New_def)
qed

subsection \<open>C7: a check that never confirms\<close>

text \<open>
  C7. When no invocation of \<open>check\<close> returns \<open>(true, nil)\<close>, \<open>Poll\<close> never returns a nil
  error. If it returns, then at that instant either the root context is done and the error
  is \<open>ErrAborted\<close>, or the root context is not done, the operation context is, and the
  error is the operation context's own. In particular it does not return while neither
  context is done. That the call does end once a context is done is
  \<open>Poll_returns_once_a_context_is_done\<close> above.
\<close>

theorem never_confirmed_never_nil:
  assumes "\<forall>i. \<not> (finished (check i) \<and> err (check i) = None)"
    and "Poll f w pl ctx check = (Some (Returned took e), st')"
  shows "e \<noteq> None \<and>
         ((Err (rootCtx pl) (now st') \<noteq> None \<and> e = Some ErrAborted)
          \<or> (Err (rootCtx pl) (now st') = None \<and> Err ctx (now st') \<noteq> None
              \<and> e = Some (cause ctx)))"
proof -
  from poll_ends[OF assms(2)] assms(1)
  have "(Err (rootCtx pl) (now st') \<noteq> None \<and> e = Some ErrAborted)
        \<or> (Err (rootCtx pl) (now st') = None \<and> Err ctx (now st') \<noteq> None
            \<and> e = Err ctx (now st'))"
    by auto
  then show ?thesis
    by (auto simp: Err_def split: option.splits if_splits)
qed

text \<open>
  A run for C7: every \<open>check\<close> fails after one nanosecond, the interval is 4 and the
  operation context reaches its deadline at 8. The checks run at 1, 5 and 9; the call
  returns at 10 with the deadline error.
\<close>

theorem never_confirmed_never_nil_witness:
  "(\<forall>i. \<not> (finished (Reply 1 False (Some (Other ''rpc'')))
            \<and> err (Reply 1 False (Some (Other ''rpc''))) = None))
   \<and> (case Poll 5 from_zero (New never 4) (done_from 8 DeadlineExceeded)
              (\<lambda>i. Reply 1 False (Some (Other ''rpc''))) of
        (out, st') \<Rightarrow>
          out = Some (Returned 10 (Some DeadlineExceeded)) \<and> now st' = 10
          \<and> calls st' = [(1, 2), (5, 6), (9, 10)])"
proof -
  let ?pl = "New never 4"
  let ?ctx = "done_from 8 DeadlineExceeded"
  let ?check = "\<lambda>i::nat. Reply 1 False (Some (Other ''rpc''))"
  let ?st = "\<lparr>now = 10, tick_at = 13, calls = [(1, 2), (5, 6), (9, 10)],
              log = [Info_start_polling 4, Warn_poll_check_failed (Other ''rpc''),
                     Warn_poll_check_failed (Other ''rpc''),
                     Warn_poll_check_failed (Other ''rpc'')],
              stopped = True, self = ?pl\<rparr>"
  have fails: "\<forall>i. \<not> (finished (?check i) \<and> err (?check i) = None)" by simp
  have run: "Poll 5 from_zero ?pl ?ctx ?check = (Some (Returned 10 (Some DeadlineExceeded)), ?st)"
    by code_simp
  from never_confirmed_never_nil[OF fails run] fails run
  show ?thesis by simp
qed

subsection \<open>C8: the poller is not written\<close>

lemma Poll_self: "self (snd (Poll f w pl ctx check)) = pl"
proof -
  obtain out st' where r: "poll_loop f w ctx check (enter w pl) = (out, st')"
    by (cases "poll_loop f w ctx check (enter w pl)")
  from poll_loop_self[OF r] r show ?thesis
    by (simp add: Poll_def enter_def)
qed

lemma poll_many_frame:
  "poll_many f pl cs = (pl, map (\<lambda>(w, ctx, check). fst (Poll f w pl ctx check)) cs)"
proof (induction cs)
  case Nil
  show ?case by simp
next
  case (Cons c cs)
  obtain w ctx check where c: "c = (w, ctx, check)" by (cases c)
  obtain out st' where r: "Poll f w pl ctx check = (out, st')"
    by (cases "Poll f w pl ctx check")
  with Poll_self[of f w pl ctx check] have "self st' = pl" by simp
  with Cons.IH c r show ?case by simp
qed

text \<open>
  C8. \<open>Poll\<close> leaves the object it is called on as it found it: both fields are the
  same after the call. After any number of calls, one after another on the same poller, the
  poller is still the one they began with, and each call has the outcome it would have had
  on the poller as \<open>New\<close> made it: what one call does never reaches another through the
  poller.
\<close>

theorem Poll_leaves_the_poller_unchanged:
  "self (snd (Poll f w pl ctx check)) = pl
   \<and> rootCtx (self (snd (Poll f w pl ctx check))) = rootCtx pl
   \<and> interval (self (snd (Poll f w pl ctx check))) = interval pl
   \<and> fst (poll_many f pl cs) = pl
   \<and> snd (poll_many f pl cs) = map (\<lambda>(w, ctx, check). fst (Poll f w pl ctx check)) cs"
  by (simp add: Poll_self poll_many_frame)

text \<open>
  Runs for C8: two calls on one poller, the first confirmed at 6, the second cancelled
  through its own context at 3.
\<close>

theorem Poll_leaves_the_poller_unchanged_witness:
  "poll_many 5 (New never 10)
     [(from_zero, never, \<lambda>i. Reply 5 True None),
      (from_zero, done_from 3 Canceled, \<lambda>i. Reply 5 False None)]
   = (New never 10, [Some (Returned 6 None), Some (Returned 6 (Some Canceled))])
   \<and> self (snd (Poll 5 from_zero (New never 10) never (\<lambda>i. Reply 5 True None))) = New never 10"
proof -
  let ?cs = "[(from_zero, never, \<lambda>i::nat. Reply 5 True None),
              (from_zero, done_from 3 Canceled, \<lambda>i::nat. Reply 5 False None)]"
  have a: "fst (Poll 5 from_zero (New never 10) never (\<lambda>i. Reply 5 True None))
             = Some (Returned 6 None)"
    by code_simp
  have b: "fst (Poll 5 from_zero (New never 10) (done_from 3 Canceled) (\<lambda>i. Reply 5 False None))
             = Some (Returned 6 (Some Canceled))"
    by code_simp
  from Poll_leaves_the_poller_unchanged
         [of 5 from_zero "New never 10" never "\<lambda>i. Reply 5 True None" ?cs] a b
  show ?thesis by (simp add: prod_eq_iff)
qed

subsection \<open>C9: intervals that are not positive\<close>

text \<open>
  C9. \<open>New\<close> stores whatever interval it is given, zero and negative ones too. With such
  an interval, a call that enters the loop and takes the first tick panics in \<open>tc.Reset\<close>,
  one nanosecond after it started and before \<open>check\<close> is ever invoked.
\<close>

theorem New_takes_any_interval_and_Reset_panics:
  "rootCtx (New root iv) = root \<and> interval (New root iv) = iv
   \<and> (iv \<le> 0 \<and> running ctx (enter w (New root iv))
        \<and> select_wait w root (enter w (New root iv)) = (Tick, t)
      \<longrightarrow> t = start w + 1
          \<and> Poll (Suc f) w (New root iv) ctx check
              = (Some Panicked, (enter w (New root iv))\<lparr>now := start w + 1, stopped := True\<rparr>)
          \<and> calls (snd (Poll (Suc f) w (New root iv) ctx check)) = [])"
proof (intro conjI impI)
  show "rootCtx (New root iv) = root" "interval (New root iv) = iv"
    by (simp_all add: New_def)
next
  let ?st = "enter w (New root iv)"
  assume a: "iv \<le> 0 \<and> running ctx ?st \<and> select_wait w root ?st = (Tick, t)"
  have self: "self ?st = New root iv" and root: "rootCtx (self ?st) = root"
    and iv: "interval (self ?st) = iv"
    by (simp_all add: enter_def New_def)
  from a have "Err root (now ?st) = None" by (simp add: running_def root)
  with a select_Tick_unfired[of w root ?st t]
  show t: "t = start w + 1" by (simp add: enter_def)
  from a t have sel: "select_wait w (rootCtx (self ?st)) ?st = (Tick, start w + 1)"
    by (simp add: root)
  with a iv have "body w check ?st = Leave Panicked (?st\<lparr>now := start w + 1, stopped := True\<rparr>)"
    by (simp add: body_def)
  with a show run: "Poll (Suc f) w (New root iv) ctx check
              = (Some Panicked, ?st\<lparr>now := start w + 1, stopped := True\<rparr>)"
    by (simp add: Poll_def)
  then show "calls (snd (Poll (Suc f) w (New root iv) ctx check)) = []"
    by (simp add: enter_def)
qed

text \<open>
  Runs for C9: an interval of 0, and an interval of -5 with an operation context that
  would be done at 7. Both calls panic at 1.
\<close>

theorem New_takes_any_interval_and_Reset_panics_witness:
  "interval (New never 0) = 0 \<and> interval (New never (- 5)) = - 5
   \<and> running never (enter from_zero (New never 0))
   \<and> select_wait from_zero never (enter from_zero (New never 0)) = (Tick, 1)
   \<and> Poll (Suc 0) from_zero (New never 0) never (\<lambda>i. Reply 5 True None)
      = (Some Panicked,
         \<lparr>now = 1, tick_at = 1, calls = [], log = [Info_start_polling 0], stopped = True,
          self = New never 0\<rparr>)
   \<and> running (done_from 7 Canceled) (enter from_zero (New never (- 5)))
   \<and> Poll (Suc 0) from_zero (New never (- 5)) (done_from 7 Canceled) (\<lambda>i. Reply 5 True None)
      = (Some Panicked,
         \<lparr>now = 1, tick_at = 1, calls = [], log = [Info_start_polling (- 5)], stopped = True,
          self = New never (- 5)\<rparr>)"
proof -
  let ?check = "\<lambda>i::nat. Reply 5 True None"
  have h0: "(0::int) \<le> 0 \<and> running never (enter from_zero (New never 0))
            \<and> select_wait from_zero never (enter from_zero (New never 0)) = (Tick, 1)"
    by (simp add: running_def enter_def New_def never_def Err_def select_wait_def from_zero_def)
  have h5: "(- 5::int) \<le> 0 \<and> running (done_from 7 Canceled) (enter from_zero (New never (- 5)))
            \<and> select_wait from_zero never (enter from_zero (New never (- 5))) = (Tick, 1)"
    by (simp add: running_def enter_def New_def never_def Err_def select_wait_def from_zero_def
          done_from_def)
  from New_takes_any_interval_and_Reset_panics[of never 0 never from_zero 1 0 ?check] h0
  have r0: "Poll (Suc 0) from_zero (New never 0) never ?check
             = (Some Panicked, (enter from_zero (New never 0))\<lparr>now := start from_zero + 1,
                                                              stopped := True\<rparr>)"
    by blast
  from New_takes_any_interval_and_Reset_panics
         [of never "- 5" "done_from 7 Canceled" from_zero 1 0 ?check] h5
  have r5: "Poll (Suc 0) from_zero (New never (- 5)) (done_from 7 Canceled) ?check
             = (Some Panicked, (enter from_zero (New never (- 5)))\<lparr>now := start from_zero + 1,
                                                                 stopped := True\<rparr>)"
    by blast
  have "interval (New never 0) = 0" "interval (New never (- 5)) = - 5"
    by (simp_all add: New_def)
  with h0 h5 r0 r5 show ?thesis
    by (simp add: enter_def from_zero_def New_def)
qed

subsection \<open>C10: a confirmation wins\<close>

text \<open>
  C10. Whenever an invocation of \<open>check\<close> has returned \<open>(true, nil)\<close>, \<open>Poll\<close> has returned
  with a nil error at the instant that invocation returned, and that invocation was the last
  one. Nothing is assumed about the two contexts: either may have become done while the
  invocation ran.
\<close>

theorem confirmed_check_returns_nil:
  assumes "Poll f w pl ctx check = (out, st')"
    and "i < length (calls st')"
    and "finished (check i)" and "err (check i) = None"
  shows "out = Some (Returned (since w (now st')) None) \<and> Suc i = length (calls st')
         \<and> snd (last (calls st')) = now st' \<and> success_path st'"
proof -
  let ?I = "\<lambda>s. \<forall>j<length (calls s). \<not> (finished (check j) \<and> err (check j) = None)"
  from assms(1) have run: "poll_loop f w ctx check (enter w pl) = (out, st')"
    by (simp add: Poll_def)
  have "(out = None \<and> ?I st')
      \<or> (\<exists>s. ?I s \<and> \<not> running ctx s \<and> after_loop w ctx s = (out, st'))
      \<or> (\<exists>s out'. ?I s \<and> running ctx s \<and> body w check s = Leave out' st' \<and> out = Some out')"
    using run
  proof (rule poll_loop_cases[where I = ?I])
    show "?I (enter w pl)" by (simp add: enter_def)
  next
    fix s s' assume "?I s" "running ctx s" "body w check s = Continue s'"
    then show "?I s'"
      by (auto dest!: body_Continue_D simp: less_Suc_eq)
  qed
  then consider
      (fuel) "?I st'"
    | (exit) s where "?I s" "after_loop w ctx s = (out, st')"
    | (leave) s out' where "?I s" "body w check s = Leave out' st'" "out = Some out'"
    by auto
  then show ?thesis
  proof cases
    case fuel
    with assms(2-4) show ?thesis by blast
  next
    case exit
    then have "calls st' = calls s" by (auto simp: after_loop_def Let_def)
    with exit(1) assms(2-4) show ?thesis by auto
  next
    case leave
    from body_Leave_D[OF leave(2)] leave(1,3) assms(2-4) show ?thesis
      by (auto simp: less_Suc_eq success_path_def)
  qed
qed

text \<open>
  A run for C10: the first \<open>check\<close> runs from 1 to 6 and returns \<open>(true, nil)\<close>; the root
  context is done at 3 and the operation context at 4, both while it runs.
\<close>

theorem confirmed_check_returns_nil_witness:
  "case Poll 5 from_zero (New (done_from 3 Canceled) 10) (done_from 4 DeadlineExceeded)
          (\<lambda>i. Reply 5 True None) of
     (out, st') \<Rightarrow>
       0 < length (calls st') \<and> calls st' = [(1, 6)]
       \<and> finished (Reply 5 True None) \<and> err (Reply 5 True None) = None
       \<and> Err (done_from 3 Canceled) (now st') \<noteq> None
       \<and> Err (done_from 4 DeadlineExceeded) (now st') \<noteq> None
       \<and> out = Some (Returned 6 None)"
proof -
  let ?pl = "New (done_from 3 Canceled) 10"
  let ?ctx = "done_from 4 DeadlineExceeded"
  let ?check = "\<lambda>i::nat. Reply 5 True None"
  let ?st = "\<lparr>now = 6, tick_at = 11, calls = [(1, 6)],
              log = [Info_start_polling 10, Info_poll_confirmed 6],
              stopped = True, self = ?pl\<rparr>"
  have run: "Poll 5 from_zero ?pl ?ctx ?check = (Some (Returned 6 None), ?st)"
    by code_simp
  have invoked: "0 < length (calls ?st)" by simp
  have fin: "finished (?check 0)" and nil: "err (?check 0) = None" by simp_all
  have fired: "Err (done_from 3 Canceled) (now ?st) \<noteq> None"
    "Err (done_from 4 DeadlineExceeded) (now ?st) \<noteq> None"
    by code_simp+
  from confirmed_check_returns_nil[OF run invoked fin nil] run fired
  show ?thesis by simp
qed

end
